theory Spec2Isabelle
  imports Main
begin

section \<open>Strings\<close>

text \<open>
  Python strings are modelled as \<open>string\<close>; the characters are read as ASCII code points.
  \<open>str.lower\<close>, \<open>str.strip\<close>, \<open>str.splitlines\<close> and the classes of the regular
  expression engine are given for ASCII text.
\<close>

definition is_upper :: "char \<Rightarrow> bool" where
  "is_upper c = (65 \<le> (of_char c :: nat) \<and> (of_char c :: nat) \<le> 90)"

definition is_lower :: "char \<Rightarrow> bool" where
  "is_lower c = (97 \<le> (of_char c :: nat) \<and> (of_char c :: nat) \<le> 122)"

definition is_digit :: "char \<Rightarrow> bool" where
  "is_digit c = (48 \<le> (of_char c :: nat) \<and> (of_char c :: nat) \<le> 57)"

text \<open>The character class \<open>[a-zA-Z]\<close>.\<close>

definition is_letter :: "char \<Rightarrow> bool" where
  "is_letter c = (is_lower c \<or> is_upper c)"

text \<open>The class \<open>\w\<close> on ASCII: letters, digits and the underscore.\<close>

definition is_word_char :: "char \<Rightarrow> bool" where
  "is_word_char c = (is_letter c \<or> is_digit c \<or> c = CHR ''_'')"

definition lower_char :: "char \<Rightarrow> char" where
  "lower_char c = (if is_upper c then char_of ((of_char c :: nat) + 32) else c)"

definition lower :: "string \<Rightarrow> string" where
  "lower s = map lower_char s"

text \<open>\<open>s.startswith(p)\<close> and \<open>p in s\<close>.\<close>

fun startswith :: "string \<Rightarrow> string \<Rightarrow> bool" where
  "startswith s [] = True"
| "startswith [] (p # ps) = False"
| "startswith (c # cs) (p # ps) = (c = p \<and> startswith cs ps)"

fun contains :: "string \<Rightarrow> string \<Rightarrow> bool" where
  "contains [] p = (p = [])"
| "contains (c # cs) p = (startswith (c # cs) p \<or> contains cs p)"

text \<open>Whitespace of \<open>str.strip()\<close> and the line boundaries of \<open>str.splitlines()\<close>.\<close>

definition is_space :: "char \<Rightarrow> bool" where
  "is_space c = ((9 \<le> (of_char c :: nat) \<and> (of_char c :: nat) \<le> 13)
     \<or> (28 \<le> (of_char c :: nat) \<and> (of_char c :: nat) \<le> 32))"

definition is_linebreak :: "char \<Rightarrow> bool" where
  "is_linebreak c = ((10 \<le> (of_char c :: nat) \<and> (of_char c :: nat) \<le> 13)
     \<or> (28 \<le> (of_char c :: nat) \<and> (of_char c :: nat) \<le> 30))"

definition strip :: "string \<Rightarrow> string" where
  "strip s = rev (dropWhile is_space (rev (dropWhile is_space s)))"

fun splitlines_acc :: "string \<Rightarrow> string \<Rightarrow> string list" where
  "splitlines_acc cur [] = (if cur = [] then [] else [cur])"
| "splitlines_acc cur [c] = (if is_linebreak c then [cur] else [cur @ [c]])"
| "splitlines_acc cur (c # d # cs) =
     (if c = CHR 0x0D \<and> d = CHR 0x0A then cur # splitlines_acc [] cs
      else if is_linebreak c then cur # splitlines_acc [] (d # cs)
      else splitlines_acc (cur @ [c]) (d # cs))"

definition splitlines :: "string \<Rightarrow> string list" where
  "splitlines s = splitlines_acc [] s"

text \<open>\<open>line.split("  ")\<close>: the separator is two spaces.\<close>

fun split2_acc :: "string \<Rightarrow> string \<Rightarrow> string list" where
  "split2_acc cur [] = [cur]"
| "split2_acc cur [c] = [cur @ [c]]"
| "split2_acc cur (c # d # cs) =
     (if c = CHR '' '' \<and> d = CHR '' '' then cur # split2_acc [] cs
      else split2_acc (cur @ [c]) (d # cs))"

definition split_two_spaces :: "string \<Rightarrow> string list" where
  "split_two_spaces s = split2_acc [] s"

fun join :: "string \<Rightarrow> string list \<Rightarrow> string" where
  "join sep [] = []"
| "join sep [x] = x"
| "join sep (x # y # ys) = x @ sep @ join sep (y # ys)"

section \<open>Sets of strings as lists without duplicates\<close>

text \<open>
  A Python \<open>set\<close> that is iterated or popped from is a list without duplicates;
  \<open>set.add\<close> and \<open>set.update\<close> keep what is already there.
\<close>

definition set_add :: "string list \<Rightarrow> string \<Rightarrow> string list" where
  "set_add xs x = (if x \<in> set xs then xs else xs @ [x])"

definition set_update :: "string list \<Rightarrow> string list \<Rightarrow> string list" where
  "set_update xs ys = fold (\<lambda>y acc. set_add acc y) ys xs"

section \<open>The library the program calls\<close>

text \<open>
  The six fields of the tuple that \<open>urllib.parse.urlparse\<close> returns.
\<close>

record parse_result =
  scheme :: string
  netloc :: string
  path :: string
  params :: string
  query :: string
  fragment :: string

text \<open>
  What one \<open>session.get(url, timeout=30)\<close> followed by \<open>raise_for_status()\<close> delivers:
  a \<open>requests.RequestException\<close>, or a response with its content-type header (if any)
  and its text.
\<close>

datatype response = RequestException | Response "string option" string

text \<open>
  The functions of the standard library and of the packages \<open>requests\<close> and \<open>bs4\<close> are
  parameters of the model. A result \<open>None\<close> of \<open>urlparse\<close>, \<open>urljoin\<close>,
  \<open>soup_hrefs\<close> or \<open>soup_get_text\<close> is a raised exception.
  \<open>soup_get_text\<close> is \<open>BeautifulSoup(html, 'html.parser')\<close> with the script and style
  elements decomposed, followed by \<open>get_text()\<close>; \<open>soup_hrefs\<close> is the list of the
  \<open>href\<close> attributes of \<open>soup.find_all('a', href=True)\<close>.
  \<open>set_pop\<close> decides which element \<open>urls_to_visit.pop()\<close> removes: the element at
  index \<open>set_pop xs mod length xs\<close>.
\<close>

record lib =
  urlparse :: "string \<Rightarrow> parse_result option"
  urlunparse :: "parse_result \<Rightarrow> string"
  urljoin :: "string \<Rightarrow> string \<Rightarrow> string option"
  session_get :: "string \<Rightarrow> response"
  soup_get_text :: "string \<Rightarrow> string option"
  soup_hrefs :: "string \<Rightarrow> string list option"
  set_pop :: "string list \<Rightarrow> nat"

section \<open>URLValidator\<close>

text \<open>\<open>None\<close> is the exception of \<open>urlparse\<close>, which these functions do not catch.\<close>

definition normalize_url :: "lib \<Rightarrow> string \<Rightarrow> string option" where
  "normalize_url w url =
     (case urlparse w url of
        None \<Rightarrow> None
      | Some parsed \<Rightarrow> Some (urlunparse w
          \<lparr>scheme = scheme parsed, netloc = lower (netloc parsed), path = path parsed,
           params = params parsed, query = query parsed, fragment = []\<rparr>))"

definition get_domain :: "lib \<Rightarrow> string \<Rightarrow> string option" where
  "get_domain w url = (case urlparse w url of None \<Rightarrow> None | Some parsed \<Rightarrow> Some (lower (netloc parsed)))"

definition strip_www :: "string \<Rightarrow> string" where
  "strip_www domain = (if startswith domain ''www.'' then drop 4 domain else domain)"

definition is_same_domain :: "lib \<Rightarrow> string \<Rightarrow> string \<Rightarrow> bool option" where
  "is_same_domain w url1 url2 =
     (case get_domain w url1 of
        None \<Rightarrow> None
      | Some d1 \<Rightarrow>
          (case get_domain w url2 of
             None \<Rightarrow> None
           | Some d2 \<Rightarrow> Some (strip_www (lower d1) = strip_www (lower d2))))"

text \<open>\<open>is_valid_url\<close> catches every exception and answers \<open>False\<close>.\<close>

definition is_valid_url :: "lib \<Rightarrow> string \<Rightarrow> bool" where
  "is_valid_url w url =
     (case urlparse w url of
        None \<Rightarrow> False
      | Some result \<Rightarrow> scheme result \<noteq> [] \<and> netloc result \<noteq> [])"

section \<open>IgnoreListManager and TextProcessor\<close>

definition should_ignore :: "string set \<Rightarrow> string \<Rightarrow> bool" where
  "should_ignore ignore_words word = (lower word \<in> ignore_words)"

subsection \<open>The pattern \<open>\b[a-zA-Z]+\b\<close>\<close>

text \<open>
  \<open>\b\<close> holds between two positions when exactly one of the neighbouring characters is
  a word character; outside the text there is no word character.
\<close>

definition word_boundary :: "char option \<Rightarrow> char option \<Rightarrow> bool" where
  "word_boundary prev nxt =
     ((case prev of None \<Rightarrow> False | Some c \<Rightarrow> is_word_char c)
      \<noteq> (case nxt of None \<Rightarrow> False | Some c \<Rightarrow> is_word_char c))"

definition first_char :: "string \<Rightarrow> char option" where
  "first_char s = (case s of [] \<Rightarrow> None | c # cs \<Rightarrow> Some c)"

text \<open>
  \<open>[a-zA-Z]+\<close> is greedy: the engine takes the longest run of letters first and gives
  letters back one at a time until the closing \<open>\b\<close> holds. \<open>try_lengths k s\<close> tries the
  lengths \<open>k\<close>, \<open>k - 1\<close>, ..., 1 and returns the match and the rest of the text.
\<close>

fun try_lengths :: "nat \<Rightarrow> string \<Rightarrow> (string \<times> string) option" where
  "try_lengths 0 s = None"
| "try_lengths (Suc k) s =
     (if word_boundary (Some (s ! k)) (first_char (drop (Suc k) s))
      then Some (take (Suc k) s, drop (Suc k) s)
      else try_lengths k s)"

text \<open>A match of the pattern that starts at the head of \<open>s\<close>, after the character \<open>prev\<close>.\<close>

definition match_at :: "char option \<Rightarrow> string \<Rightarrow> (string \<times> string) option" where
  "match_at prev s =
     (if word_boundary prev (first_char s)
      then try_lengths (length (takeWhile is_letter s)) s
      else None)"

text \<open>\<open>findall\<close>: the matches from left to right, none overlapping another.\<close>

function findall_from :: "char option \<Rightarrow> string \<Rightarrow> string list" where
  "findall_from prev [] = []"
| "findall_from prev (c # cs) =
     (case match_at prev (c # cs) of
        Some (m, rest) \<Rightarrow> m # findall_from (Some (last m)) rest
      | None \<Rightarrow> findall_from (Some c) cs)"
  by pat_completeness auto
termination
proof (relation "measure (\<lambda>(prev, s). length s)")
  show "wf (measure (\<lambda>(prev, s). length s))" by simp
next
  fix prev :: "char option" and c :: char and cs x2 m rest
  assume a: "match_at prev (c # cs) = Some x2" "(m, rest) = x2"
  have shorter: "try_lengths k s = Some (m', r) \<Longrightarrow> s \<noteq> [] \<Longrightarrow> length r < length s"
    for k s m' r
    by (induction k) (auto split: if_splits)
  from a have "try_lengths (length (takeWhile is_letter (c # cs))) (c # cs) = Some (m, rest)"
    by (auto simp: match_at_def split: if_splits)
  from shorter [OF this] have "length rest < length (c # cs)" by simp
  then show "((Some (last m), rest), (prev, c # cs)) \<in> measure (\<lambda>(prev, s). length s)"
    by simp
next
  fix prev :: "char option" and c :: char and cs
  show "((Some c, cs), (prev, c # cs)) \<in> measure (\<lambda>(prev, s). length s)" by simp
qed

definition word_pattern_findall :: "string \<Rightarrow> string list" where
  "word_pattern_findall text = findall_from None text"

subsection \<open>TextProcessor\<close>

definition extract_text_from_html :: "lib \<Rightarrow> string \<Rightarrow> string" where
  "extract_text_from_html w html_content =
     (case soup_get_text w html_content of
        None \<Rightarrow> []
      | Some text \<Rightarrow>
          (let lines = map strip (splitlines text);
               chunks = concat (map (\<lambda>line. map strip (split_two_spaces line)) lines)
           in join '' '' (filter (\<lambda>chunk. chunk \<noteq> []) chunks)))"

definition extract_words :: "string set \<Rightarrow> string \<Rightarrow> string list" where
  "extract_words ignore_words text =
     filter (\<lambda>word. \<not> should_ignore ignore_words word \<and> length word > 2)
       (word_pattern_findall (lower text))"

text \<open>
  The loop of \<open>extract_links\<close> runs inside one \<open>try\<close>: an exception ends it and the
  links added so far are returned.
\<close>

fun collect_links :: "lib \<Rightarrow> string \<Rightarrow> string list \<Rightarrow> string list \<Rightarrow> string list" where
  "collect_links w base_url [] links = links"
| "collect_links w base_url (href # hrefs) links =
     (case urljoin w base_url href of
        None \<Rightarrow> links
      | Some full_url \<Rightarrow>
          (case normalize_url w full_url of
             None \<Rightarrow> links
           | Some normalized_url \<Rightarrow>
               collect_links w base_url hrefs
                 (if is_valid_url w normalized_url then set_add links normalized_url else links)))"

definition extract_links :: "lib \<Rightarrow> string \<Rightarrow> string \<Rightarrow> string list" where
  "extract_links w html_content base_url =
     (case soup_hrefs w html_content of
        None \<Rightarrow> []
      | Some hrefs \<Rightarrow> collect_links w base_url hrefs [])"

section \<open>Counter\<close>

text \<open>
  A \<open>collections.Counter\<close> is a dictionary, and a dictionary keeps its keys in the order
  of their first insertion: it is a list of pairs with distinct keys.
  \<open>dict_set\<close> is \<open>d[k] = v\<close>: an existing key keeps its place, a new one goes last.
\<close>

type_synonym counter = "(string \<times> nat) list"

definition counter_get :: "counter \<Rightarrow> string \<Rightarrow> nat" where
  "counter_get c elem = (case map_of c elem of None \<Rightarrow> 0 | Some n \<Rightarrow> n)"

fun dict_set :: "counter \<Rightarrow> string \<Rightarrow> nat \<Rightarrow> counter" where
  "dict_set [] k v = [(k, v)]"
| "dict_set ((k', v') # kvs) k v =
     (if k' = k then (k, v) # kvs else (k', v') # dict_set kvs k v)"

text \<open>\<open>Counter(words)\<close> counts the elements from left to right.\<close>

definition Counter :: "string list \<Rightarrow> counter" where
  "Counter words = fold (\<lambda>elem c. dict_set c elem (counter_get c elem + 1)) words []"

text \<open>\<open>self.update(other)\<close>: \<open>self[elem] = count + self.get(elem, 0)\<close> for each item of \<open>other\<close>.\<close>

definition counter_update :: "counter \<Rightarrow> counter \<Rightarrow> counter" where
  "counter_update self other =
     fold (\<lambda>(elem, count) c. dict_set c elem (count + counter_get c elem)) other self"

text \<open>
  \<open>most_common(n)\<close> is \<open>sorted(self.items(), key=itemgetter(1), reverse=True)\<close>, cut to
  its first \<open>n\<close> entries when \<open>n\<close> is given. Python's sort is stable, also with
  \<open>reverse=True\<close>: entries of equal count keep the order of the dictionary.
\<close>

definition most_common :: "nat option \<Rightarrow> counter \<Rightarrow> counter" where
  "most_common n c =
     (let sorted_items = sort_key (\<lambda>(word, count). - int count) c
      in case n of None \<Rightarrow> sorted_items | Some k \<Rightarrow> take k sorted_items)"

section \<open>WebSpider\<close>

text \<open>
  The fields of a \<open>WebSpider\<close> that the crawl reads and writes. \<open>progress\<close> is the
  list of the lines \<open>[page_num] ... url\<close> that \<open>crawl_page\<close> prints, one for each
  page it processes.
\<close>

record spider =
  ignore_words :: "string set"
  quiet :: bool
  visited_urls :: "string set"
  word_counts :: counter
  page_word_counts :: "string \<rightharpoonup> counter"
  total_words_processed :: nat
  progress :: "(nat \<times> string) list"

definition WebSpider_init :: "string set \<Rightarrow> bool \<Rightarrow> spider" where
  "WebSpider_init ignore q =
     \<lparr>ignore_words = ignore, quiet = q, visited_urls = {}, word_counts = [],
      page_word_counts = Map.empty, total_words_processed = 0, progress = []\<rparr>"

definition fetch_page :: "lib \<Rightarrow> string \<Rightarrow> string option" where
  "fetch_page w url =
     (case session_get w url of
        RequestException \<Rightarrow> None
      | Response header text \<Rightarrow>
          (let content_type = lower (case header of None \<Rightarrow> [] | Some v \<Rightarrow> v)
           in if \<not> (contains content_type ''text/html''
                     \<or> contains content_type ''application/xhtml'')
              then None
              else Some text))"

text \<open>
  The set comprehension of \<open>crawl_page\<close>. \<open>is_same_domain\<close> is evaluated for every link,
  before the test on \<open>visited_urls\<close>; its exception is the exception of the comprehension.
\<close>

fun same_domain_links :: "lib \<Rightarrow> string \<Rightarrow> string set \<Rightarrow> string list \<Rightarrow> string list option" where
  "same_domain_links w url visited [] = Some []"
| "same_domain_links w url visited (link # links) =
     (case is_same_domain w link url of
        None \<Rightarrow> None
      | Some same \<Rightarrow>
          (case same_domain_links w url visited links of
             None \<Rightarrow> None
           | Some rest \<Rightarrow> Some (if same \<and> link \<notin> visited then link # rest else rest)))"

text \<open>
  \<open>crawl_page\<close> returns the new state and the links it found; \<open>None\<close> is an exception
  that leaves \<open>crawl_page\<close>. Without \<open>quiet\<close> the domain of the page is printed, which
  parses the URL.
\<close>

definition crawl_page ::
  "lib \<Rightarrow> spider \<Rightarrow> string \<Rightarrow> string \<Rightarrow> nat \<Rightarrow> nat \<Rightarrow> (spider \<times> string list) option" where
  "crawl_page w st url target_domain page_num queue_size =
     (if url \<in> visited_urls st then Some (st, [])
      else if \<not> quiet st \<and> get_domain w url = None then None
      else
        (let st1 = st\<lparr>progress := progress st @ [(page_num, url)],
                       visited_urls := insert url (visited_urls st)\<rparr>
         in case fetch_page w url of
              None \<Rightarrow> Some (st1, [])
            | Some html_content \<Rightarrow>
                if html_content = [] then Some (st1, [])
                else
                  (let text = extract_text_from_html w html_content;
                       words = extract_words (ignore_words st1) text;
                       page_counter = Counter words;
                       st2 = st1\<lparr>word_counts := counter_update (word_counts st1) page_counter,
                                  page_word_counts := (page_word_counts st1)(url \<mapsto> page_counter),
                                  total_words_processed := total_words_processed st1 + length words\<rparr>;
                       links = extract_links w html_content url
                   in case same_domain_links w url (visited_urls st2) links of
                        None \<Rightarrow> None
                      | Some found \<Rightarrow> Some (st2, found))))"

text \<open>
  The state of the loop of \<open>crawl_website\<close>: the spider, \<open>urls_to_visit\<close> and
  \<open>page_count\<close>. \<open>loop_body\<close> is one iteration, entered with \<open>urls_to_visit\<close> not empty.
\<close>

type_synonym loop_state = "spider \<times> string list \<times> nat"

definition loop_body :: "lib \<Rightarrow> string \<Rightarrow> loop_state \<Rightarrow> loop_state option" where
  "loop_body w target_domain s =
     (case s of (st, urls_to_visit, page_count) \<Rightarrow>
        (let page_count' = page_count + 1;
             i = set_pop w urls_to_visit mod length urls_to_visit;
             current_url = urls_to_visit ! i;
             remaining = take i urls_to_visit @ drop (Suc i) urls_to_visit
         in case crawl_page w st current_url target_domain page_count' (length remaining) of
              None \<Rightarrow> None
            | Some (st', new_links) \<Rightarrow>
                (let new_unvisited_links = filter (\<lambda>link. link \<notin> visited_urls st') new_links
                 in Some (st', set_update remaining new_unvisited_links, page_count'))))"

text \<open>
  The loop runs for as long as links are found, so it is given fuel: one unit for each
  iteration.
\<close>

datatype 'a outcome = Out_Of_Fuel | Raised | Finished 'a

fun crawl_loop :: "nat \<Rightarrow> lib \<Rightarrow> string \<Rightarrow> loop_state \<Rightarrow> spider outcome" where
  "crawl_loop fuel w target_domain (st, [], page_count) = Finished st"
| "crawl_loop 0 w target_domain (st, u # us, page_count) = Out_Of_Fuel"
| "crawl_loop (Suc fuel) w target_domain (st, u # us, page_count) =
     (case loop_body w target_domain (st, u # us, page_count) of
        None \<Rightarrow> Raised
      | Some s' \<Rightarrow> crawl_loop fuel w target_domain s')"

definition crawl_website :: "nat \<Rightarrow> lib \<Rightarrow> spider \<Rightarrow> string \<Rightarrow> spider outcome" where
  "crawl_website fuel w st start_url =
     (case normalize_url w start_url of
        None \<Rightarrow> Raised
      | Some start \<Rightarrow>
          (case get_domain w start of
             None \<Rightarrow> Raised
           | Some target_domain \<Rightarrow>
               if \<not> is_valid_url w start then Finished st
               else crawl_loop fuel w target_domain (st, [start], 0)))"

text \<open>
  The state at the head of the loop after \<open>n\<close> iterations: \<open>None\<close> when the loop has
  ended before, or an iteration has raised.
\<close>

fun loop_head :: "nat \<Rightarrow> lib \<Rightarrow> string \<Rightarrow> loop_state \<Rightarrow> loop_state option" where
  "loop_head 0 w target_domain s = Some s"
| "loop_head (Suc n) w target_domain s =
     (case loop_head n w target_domain s of
        None \<Rightarrow> None
      | Some (st, urls_to_visit, page_count) \<Rightarrow>
          if urls_to_visit = [] then None
          else loop_body w target_domain (st, urls_to_visit, page_count))"

text \<open>
  What holds of the loop state whenever the condition of the loop is tested, in a crawl
  that started at \<open>start\<close>: \<open>urls_to_visit\<close> has no duplicates and nothing visited in
  it, every page with word counts is visited, the pages processed are the pages visited,
  each processed once and numbered from 1 to \<open>page_count\<close>, and every URL pending or
  visited is valid and in the domain of \<open>start\<close>.
\<close>

definition crawl_inv :: "lib \<Rightarrow> string \<Rightarrow> loop_state \<Rightarrow> bool" where
  "crawl_inv w start s =
     (case s of (st, urls_to_visit, page_count) \<Rightarrow>
        distinct urls_to_visit
        \<and> set urls_to_visit \<inter> visited_urls st = {}
        \<and> dom (page_word_counts st) \<subseteq> visited_urls st
        \<and> map fst (progress st) = [1 ..< Suc page_count]
        \<and> distinct (map snd (progress st))
        \<and> set (map snd (progress st)) = visited_urls st
        \<and> (\<forall>u \<in> set urls_to_visit \<union> visited_urls st.
              is_valid_url w u \<and> is_same_domain w u start = Some True))"

section \<open>A small site\<close>

text \<open>
  A concrete library for running the crawl: URLs of the form \<open>scheme://netloc/path\<close>
  from a table, links given absolute, and markup rendered by dropping the tags.
\<close>

definition url_result :: "string \<Rightarrow> string \<Rightarrow> string \<Rightarrow> string \<Rightarrow> parse_result" where
  "url_result s n p f = \<lparr>scheme = s, netloc = n, path = p, params = [], query = [], fragment = f\<rparr>"

definition demo_urlparse :: "string \<Rightarrow> parse_result option" where
  "demo_urlparse u =
     (if u = ''http://e.com/a'' then Some (url_result ''http'' ''e.com'' ''/a'' [])
      else if u = ''http://E.com/a#top'' then Some (url_result ''http'' ''E.com'' ''/a'' ''top'')
      else if u = ''http://www.e.com/b'' then Some (url_result ''http'' ''www.e.com'' ''/b'' [])
      else if u = ''http://e.com/c'' then Some (url_result ''http'' ''e.com'' ''/c'' [])
      else if u = ''http://e.com/d'' then Some (url_result ''http'' ''e.com'' ''/d'' [])
      else if u = ''http://o.org/x'' then Some (url_result ''http'' ''o.org'' ''/x'' [])
      else if u = ''http://[e'' then None
      else Some (url_result [] [] u []))"

definition demo_urlunparse :: "parse_result \<Rightarrow> string" where
  "demo_urlunparse r =
     (if scheme r = [] then [] else scheme r @ '':'')
     @ (if netloc r = [] then [] else ''//'' @ netloc r)
     @ path r
     @ (if params r = [] then [] else '';'' @ params r)
     @ (if query r = [] then [] else ''?'' @ query r)
     @ (if fragment r = [] then [] else ''#'' @ fragment r)"

fun drop_tags :: "bool \<Rightarrow> string \<Rightarrow> string" where
  "drop_tags inside [] = []"
| "drop_tags inside (c # cs) =
     (if c = CHR ''<'' then drop_tags True cs
      else if c = CHR ''>'' then drop_tags False cs
      else if inside then drop_tags inside cs
      else c # drop_tags inside cs)"

definition demo_lib ::
  "(string \<Rightarrow> response) \<Rightarrow> (string \<Rightarrow> string list option) \<Rightarrow> (string list \<Rightarrow> nat) \<Rightarrow> lib" where
  "demo_lib get hrefs pop =
     \<lparr>urlparse = demo_urlparse, urlunparse = demo_urlunparse,
      urljoin = (\<lambda>base href. Some href), session_get = get,
      soup_get_text = (\<lambda>html. Some (drop_tags False html)), soup_hrefs = hrefs,
      set_pop = pop\<rparr>"

text \<open>Two pages that link to each other, and a third page without links.\<close>

definition cycle_site :: lib where
  "cycle_site = demo_lib
     (\<lambda>url. if url = ''http://e.com/a'' then Response (Some ''text/html'') ''<p>to b</p>''
            else if url = ''http://www.e.com/b'' then Response (Some ''text/html'') ''<p>to a</p>''
            else if url = ''http://e.com/c'' then Response (Some ''text/html'') ''<p>alone</p>''
            else RequestException)
     (\<lambda>html. if html = ''<p>to b</p>'' then Some [''http://www.e.com/b'']
             else if html = ''<p>to a</p>'' then Some [''http://E.com/a#top'']
             else Some [])
     (\<lambda>urls. 0)"


section \<open>Evaluation\<close>

lemma char_eq_char_of_iff: "c = char_of (n :: nat) \<longleftrightarrow> take_bit 8 n = of_char c"
  using char_of_eq_iff [of n c] by auto

lemmas char_class_defs = char_eq_char_of_iff is_word_char_def is_letter_def is_lower_def is_upper_def is_digit_def
  is_space_def is_linebreak_def lower_char_def char_of_eq_iff



lemmas counter_defs = most_common_def sort_key_def Counter_def counter_get_def counter_update_def

lemmas url_defs = normalize_url_def get_domain_def is_same_domain_def is_valid_url_def
  strip_www_def demo_urlparse_def demo_urlunparse_def url_result_def

section \<open>Lower case\<close>

lemma lower_char_not_upper: "\<not> is_upper (lower_char c)"
proof (cases "is_upper c")
  case True
  then have "of_char (lower_char c) = (of_char c :: nat) + 32"
    by (simp add: lower_char_def is_upper_def)
  with True show ?thesis by (simp add: is_upper_def)
next
  case False
  then show ?thesis by (simp add: lower_char_def)
qed

lemma lower_char_idem: "lower_char (lower_char c) = lower_char c"
  using lower_char_not_upper [of c] by (subst lower_char_def) simp

lemma lower_idem: "lower (lower s) = lower s"
  by (simp add: lower_def lower_char_idem)


section \<open>The tokens of the pattern\<close>







section \<open>URL normalization\<close>



section \<open>Word extraction\<close>



section \<open>The most common words\<close>

text \<open>
  C9. \<open>most_common\<close> lists the pairs of a counter by descending count; pairs of equal
  count keep the order in which their words were first inserted, whatever their
  alphabetical order, and \<open>most_common(n)\<close> is the first \<open>n\<close> of that list. On the counts
  cat 3, dog 3, bird 1 with \<open>cat\<close> inserted before \<open>dog\<close>, \<open>most_common(2)\<close> is
  cat 3, dog 3; with \<open>dog\<close> inserted first it is dog 3, cat 3.
\<close>

theorem most_common_first_inserted:
  "most_common (Some 2) [(''cat'', 3), (''dog'', 3), (''bird'', 1)] = [(''cat'', 3), (''dog'', 3)]
   \<and> most_common (Some 2) [(''dog'', 3), (''cat'', 3), (''bird'', 1)] = [(''dog'', 3), (''cat'', 3)]
   \<and> counter_update (Counter [''cat'', ''dog'', ''cat'']) (Counter [''bird'', ''dog'', ''dog'', ''cat''])
       = [(''cat'', 3), (''dog'', 3), (''bird'', 1)]
   \<and> sorted (map (\<lambda>(word, count). - int count) (most_common None c))
   \<and> filter (\<lambda>(word, count). count = k) (most_common None c) = filter (\<lambda>(word, count). count = k) c
   \<and> most_common (Some n) c = take n (most_common None c)"
proof -
  have e1: "most_common (Some 2) [(''cat'', 3), (''dog'', 3), (''bird'', 1)] = [(''cat'', 3), (''dog'', 3)]"
    by (simp add: counter_defs)
  have e2: "most_common (Some 2) [(''dog'', 3), (''cat'', 3), (''bird'', 1)] = [(''dog'', 3), (''cat'', 3)]"
    by (simp add: counter_defs)
  have e3: "counter_update (Counter [''cat'', ''dog'', ''cat'']) (Counter [''bird'', ''dog'', ''dog'', ''cat''])
       = [(''cat'', 3), (''dog'', 3), (''bird'', 1)]"
    by (simp add: counter_defs)
  have s: "sorted (map (\<lambda>(word, count). - int count) (most_common None c))"
    by (simp add: most_common_def)
  have "(\<lambda>(word, count). count = k) = (\<lambda>y. (\<lambda>(word::string, count). - int count) y = - int k)"
    by (auto simp: fun_eq_iff)
  then have st: "filter (\<lambda>(word, count). count = k) (most_common None c)
      = filter (\<lambda>(word, count). count = k) c"
    by (simp add: most_common_def sort_key_stable)
  have t: "most_common (Some n) c = take n (most_common None c)"
    by (simp add: most_common_def)
  from e1 e2 e3 s st t show ?thesis by blast
qed

section \<open>One page\<close>

lemma set_set_add: "set (set_add xs x) = insert x (set xs)"
  by (auto simp: set_add_def)

lemma distinct_set_add: "distinct xs \<Longrightarrow> distinct (set_add xs x)"
  by (simp add: set_add_def)

lemma set_set_update: "set (set_update xs ys) = set xs \<union> set ys"
  unfolding set_update_def by (induction ys arbitrary: xs) (auto simp: set_set_add)

lemma distinct_set_update: "distinct xs \<Longrightarrow> distinct (set_update xs ys)"
  unfolding set_update_def by (induction ys arbitrary: xs) (auto simp: distinct_set_add)

lemma set_update_known: "set ys \<subseteq> set xs \<Longrightarrow> set_update xs ys = xs"
  unfolding set_update_def by (induction ys arbitrary: xs) (auto simp: set_add_def)

lemma get_domain_None: "get_domain w url = None \<longleftrightarrow> urlparse w url = None"
  by (simp add: get_domain_def split: option.splits)

lemma is_valid_url_parses: "is_valid_url w url \<Longrightarrow> urlparse w url \<noteq> None"
  by (auto simp: is_valid_url_def split: option.splits)

lemma is_same_domain_refl: "urlparse w a \<noteq> None \<Longrightarrow> is_same_domain w a a = Some True"
  by (auto simp: is_same_domain_def get_domain_def)

lemma is_same_domain_trans:
  "is_same_domain w a b = Some True \<Longrightarrow> is_same_domain w b c = Some True \<Longrightarrow>
     is_same_domain w a c = Some True"
  by (auto simp: is_same_domain_def split: option.splits)

lemma is_same_domain_sym:
  "is_same_domain w a b = Some r \<Longrightarrow> is_same_domain w b a = Some r"
  by (auto simp: is_same_domain_def split: option.splits)

lemma collect_links_valid:
  "l \<in> set (collect_links w base hrefs links) \<Longrightarrow> l \<in> set links \<or> is_valid_url w l"
proof (induction hrefs arbitrary: links)
  case Nil
  then show ?case by simp
next
  case (Cons href hrefs)
  show ?case
  proof (cases "urljoin w base href")
    case None
    with Cons.prems show ?thesis by simp
  next
    case full: (Some full)
    show ?thesis
    proof (cases "normalize_url w full")
      case None
      with full Cons.prems show ?thesis by simp
    next
      case n: (Some n)
      show ?thesis
      proof (cases "is_valid_url w n")
        case True
        with full n Cons.prems have "l \<in> set (collect_links w base hrefs (set_add links n))"
          by simp
        from Cons.IH [OF this] True show ?thesis
          unfolding set_set_add by blast
      next
        case False
        with full n Cons.prems have "l \<in> set (collect_links w base hrefs links)"
          by simp
        from Cons.IH [OF this] show ?thesis .
      qed
    qed
  qed
qed

lemma collect_links_distinct:
  "distinct links \<Longrightarrow> distinct (collect_links w base hrefs links)"
  by (induction hrefs arbitrary: links) (auto simp: distinct_set_add split: option.splits)

lemma extract_links_valid: "l \<in> set (extract_links w html base) \<Longrightarrow> is_valid_url w l"
  using collect_links_valid [of l w base _ "[]"]
  by (auto simp: extract_links_def split: option.splits)

lemma extract_links_distinct: "distinct (extract_links w html base)"
  using collect_links_distinct [of "[]" w base]
  by (auto simp: extract_links_def split: option.splits)

lemma same_domain_links_filter:
  "\<forall>l \<in> set links. urlparse w l \<noteq> None \<Longrightarrow> urlparse w url \<noteq> None \<Longrightarrow>
     same_domain_links w url visited links
       = Some (filter (\<lambda>l. is_same_domain w l url = Some True \<and> l \<notin> visited) links)"
proof (induction links)
  case Nil
  then show ?case by simp
next
  case (Cons l links)
  then obtain r where "is_same_domain w l url = Some r"
    by (auto simp: is_same_domain_def get_domain_def)
  with Cons show ?case by auto
qed

lemma crawl_page_no_content:
  assumes "url \<notin> visited_urls st" "urlparse w url \<noteq> None"
    and "fetch_page w url = None \<or> fetch_page w url = Some []"
  shows "crawl_page w st url td pn qs =
     Some (st\<lparr>progress := progress st @ [(pn, url)], visited_urls := insert url (visited_urls st)\<rparr>, [])"
  using assms by (auto simp: crawl_page_def get_domain_None)

lemma crawl_page_content:
  assumes "url \<notin> visited_urls st" "urlparse w url \<noteq> None"
    and "fetch_page w url = Some html" "html \<noteq> []"
  shows "crawl_page w st url td pn qs =
     Some (st\<lparr>progress := progress st @ [(pn, url)],
              visited_urls := insert url (visited_urls st),
              word_counts := counter_update (word_counts st)
                (Counter (extract_words (ignore_words st) (extract_text_from_html w html))),
              page_word_counts := (page_word_counts st)
                (url \<mapsto> Counter (extract_words (ignore_words st) (extract_text_from_html w html))),
              total_words_processed := total_words_processed st
                + length (extract_words (ignore_words st) (extract_text_from_html w html))\<rparr>,
           filter (\<lambda>l. is_same_domain w l url = Some True \<and> l \<notin> insert url (visited_urls st))
             (extract_links w html url))"
proof -
  have "\<forall>l \<in> set (extract_links w html url). urlparse w l \<noteq> None"
    using extract_links_valid is_valid_url_parses by blast
  from same_domain_links_filter [OF this assms(2)] assms show ?thesis
    by (simp add: crawl_page_def get_domain_None Let_def)
qed

lemma crawl_page_summary:
  assumes "url \<notin> visited_urls st" "urlparse w url \<noteq> None"
  shows "\<exists>st' found. crawl_page w st url td pn qs = Some (st', found)
     \<and> visited_urls st' = insert url (visited_urls st)
     \<and> progress st' = progress st @ [(pn, url)]
     \<and> dom (page_word_counts st') \<subseteq> insert url (dom (page_word_counts st))
     \<and> distinct found
     \<and> (\<forall>l \<in> set found. is_valid_url w l \<and> is_same_domain w l url = Some True
           \<and> l \<notin> visited_urls st'
           \<and> (\<exists>html. fetch_page w url = Some html \<and> l \<in> set (extract_links w html url)))"
proof (cases "fetch_page w url = None \<or> fetch_page w url = Some []")
  case True
  note r = crawl_page_no_content [OF assms True, of td pn qs]
  have "dom (page_word_counts st) \<subseteq> insert url (dom (page_word_counts st))" by blast
  then show ?thesis
    apply (intro exI conjI)
         apply (rule r)
        apply simp_all
    done
next
  case False
  then obtain html where h: "fetch_page w url = Some html" "html \<noteq> []" by auto
  note r = crawl_page_content [OF assms h, of td pn qs]
  let ?found = "filter (\<lambda>l. is_same_domain w l url = Some True \<and> l \<notin> insert url (visited_urls st))
             (extract_links w html url)"
  have d: "distinct ?found" using extract_links_distinct by simp
  have f: "\<forall>l \<in> set ?found. is_valid_url w l \<and> is_same_domain w l url = Some True
           \<and> l \<notin> insert url (visited_urls st)
           \<and> (\<exists>html. fetch_page w url = Some html \<and> l \<in> set (extract_links w html url))"
    using extract_links_valid h by auto
  show ?thesis
    apply (intro exI conjI)
         apply (rule r)
        apply simp
       apply simp
      apply simp
     apply (rule d)
    using f apply simp
    done
qed

section \<open>The loop\<close>

lemma pop_split:
  assumes "distinct xs" "i < length xs"
  shows "distinct (take i xs @ drop (Suc i) xs)"
    and "set (take i xs @ drop (Suc i) xs) = set xs - {xs ! i}"
proof -
  from assms(2) have xs: "xs = take i xs @ xs ! i # drop (Suc i) xs"
    by (rule id_take_nth_drop)
  with assms(1) have d: "distinct (take i xs @ xs ! i # drop (Suc i) xs)" by simp
  then show "distinct (take i xs @ drop (Suc i) xs)" by simp
  from d have "xs ! i \<notin> set (take i xs) \<union> set (drop (Suc i) xs)" by auto
  moreover have "set xs = set (take i xs) \<union> {xs ! i} \<union> set (drop (Suc i) xs)"
    by (subst xs) auto
  ultimately show "set (take i xs @ drop (Suc i) xs) = set xs - {xs ! i}" by auto
qed

lemma loop_body_step:
  assumes inv: "crawl_inv w start (st, urls, pc)" and ne: "urls \<noteq> []"
  shows "\<exists>st' urls' cur. loop_body w td (st, urls, pc) = Some (st', urls', Suc pc)
     \<and> crawl_inv w start (st', urls', Suc pc)
     \<and> cur \<in> set urls
     \<and> visited_urls st' = insert cur (visited_urls st)
     \<and> progress st' = progress st @ [(Suc pc, cur)]
     \<and> set urls' \<subseteq> (set urls - {cur})
          \<union> {l. \<exists>html. fetch_page w cur = Some html \<and> l \<in> set (extract_links w html cur)}"
proof -
  define i where "i = set_pop w urls mod length urls"
  define cur where "cur = urls ! i"
  define remaining where "remaining = take i urls @ drop (Suc i) urls"
  from inv have d: "distinct urls" and dis: "set urls \<inter> visited_urls st = {}"
    and pw: "dom (page_word_counts st) \<subseteq> visited_urls st"
    and num: "map fst (progress st) = [1 ..< Suc pc]"
    and once: "distinct (map snd (progress st))"
    and same: "set (map snd (progress st)) = visited_urls st"
    and dom: "\<forall>u \<in> set urls \<union> visited_urls st. is_valid_url w u \<and> is_same_domain w u start = Some True"
    by (auto simp: crawl_inv_def)
  from ne have i: "i < length urls" by (simp add: i_def)
  then have cur: "cur \<in> set urls" by (simp add: cur_def)
  from pop_split [OF d i] have dr: "distinct remaining" and sr: "set remaining = set urls - {cur}"
    by (simp_all add: remaining_def cur_def)
  from cur dis have nv: "cur \<notin> visited_urls st" by auto
  from cur dom have vc: "is_valid_url w cur" and sc: "is_same_domain w cur start = Some True" by auto
  from vc have pc: "urlparse w cur \<noteq> None" by (rule is_valid_url_parses)
  from crawl_page_summary [OF nv pc, of td "Suc pc" "length remaining"]
  obtain st' found where cp: "crawl_page w st cur td (Suc pc) (length remaining) = Some (st', found)"
    and v': "visited_urls st' = insert cur (visited_urls st)"
    and p': "progress st' = progress st @ [(Suc pc, cur)]"
    and pw': "dom (page_word_counts st') \<subseteq> insert cur (dom (page_word_counts st))"
    and df: "distinct found"
    and fl: "\<forall>l \<in> set found. is_valid_url w l \<and> is_same_domain w l cur = Some True
           \<and> l \<notin> visited_urls st'
           \<and> (\<exists>html. fetch_page w cur = Some html \<and> l \<in> set (extract_links w html cur))"
    by blast
  define urls' where "urls' = set_update remaining (filter (\<lambda>link. link \<notin> visited_urls st') found)"
  have lb: "loop_body w td (st, urls, pc) = Some (st', urls', Suc pc)"
    using cp by (simp add: loop_body_def Let_def i_def cur_def remaining_def urls'_def)
  have su: "set urls' = set remaining \<union> {l \<in> set found. l \<notin> visited_urls st'}"
    by (auto simp: urls'_def set_set_update)
  have i1: "distinct urls'" using dr by (simp add: urls'_def distinct_set_update)
  have i2: "set urls' \<inter> visited_urls st' = {}" using su sr dis v' by auto
  have i3: "dom (page_word_counts st') \<subseteq> visited_urls st'" using pw' pw v' by auto
  have i4: "map fst (progress st') = [1 ..< Suc (Suc pc)]" using num p' by simp
  have i5: "distinct (map snd (progress st'))" using once same nv p' by auto
  have i6: "set (map snd (progress st')) = visited_urls st'" using same p' v' by auto
  have i7: "\<forall>u \<in> set urls' \<union> visited_urls st'. is_valid_url w u \<and> is_same_domain w u start = Some True"
  proof
    fix u assume "u \<in> set urls' \<union> visited_urls st'"
    then consider "u \<in> set urls \<union> visited_urls st" | "u \<in> set found"
      using su sr v' cur by auto
    then show "is_valid_url w u \<and> is_same_domain w u start = Some True"
    proof cases
      case 1
      with dom show ?thesis by blast
    next
      case 2
      with fl have "is_valid_url w u" "is_same_domain w u cur = Some True" by auto
      with sc is_same_domain_trans show ?thesis by blast
    qed
  qed
  have inv': "crawl_inv w start (st', urls', Suc pc)"
    using i1 i2 i3 i4 i5 i6 i7 by (simp add: crawl_inv_def)
  have sub: "set urls' \<subseteq> (set urls - {cur})
          \<union> {l. \<exists>html. fetch_page w cur = Some html \<and> l \<in> set (extract_links w html cur)}"
    using su sr fl by auto
  from lb inv' cur v' p' sub show ?thesis by blast
qed

lemma crawl_inv_init:
  assumes "is_valid_url w start"
  shows "crawl_inv w start (WebSpider_init ignore q, [start], 0)"
  using assms is_same_domain_refl [OF is_valid_url_parses [OF assms]]
  by (simp add: crawl_inv_def WebSpider_init_def)

lemma loop_head_inv:
  assumes "crawl_inv w start s" and "loop_head n w td s = Some s'"
  shows "crawl_inv w start s'"
  using assms(2)
proof (induction n arbitrary: s')
  case 0
  with assms(1) show ?case by simp
next
  case (Suc n)
  then obtain st urls pc where h: "loop_head n w td s = Some (st, urls, pc)"
    and ne: "urls \<noteq> []" and b: "loop_body w td (st, urls, pc) = Some s'"
    by (auto split: option.splits if_splits)
  from Suc.IH [OF h] have "crawl_inv w start (st, urls, pc)" .
  from loop_body_step [OF this ne, of td] b show ?case by auto
qed

lemma loop_head_front:
  "loop_head (Suc n) w td (st, urls, pc) =
     (if urls = [] then None
      else case loop_body w td (st, urls, pc) of None \<Rightarrow> None | Some s' \<Rightarrow> loop_head n w td s')"
proof (induction n)
  case 0
  show ?case by (auto split: option.splits)
next
  case (Suc n)
  have "loop_head (Suc (Suc n)) w td (st, urls, pc) =
     (case loop_head (Suc n) w td (st, urls, pc) of
        None \<Rightarrow> None
      | Some (st', urls', pc') \<Rightarrow> if urls' = [] then None else loop_body w td (st', urls', pc'))"
    by simp
  also have "\<dots> = (if urls = [] then None
      else case loop_body w td (st, urls, pc) of None \<Rightarrow> None | Some s' \<Rightarrow> loop_head (Suc n) w td s')"
    unfolding Suc.IH by (auto split: option.splits)
  finally show ?case .
qed

lemma crawl_loop_Finished:
  "crawl_loop fuel w td s = Finished st' \<Longrightarrow>
     \<exists>n pc. n \<le> fuel \<and> loop_head n w td s = Some (st', [], pc)"
proof (induction fuel w td s rule: crawl_loop.induct)
  case (1 fuel w td st pc)
  then have "loop_head 0 w td (st, [], pc) = Some (st', [], pc)" by simp
  then show ?case by blast
next
  case (2 w td st u us pc)
  then show ?case by simp
next
  case (3 fuel w td st u us pc)
  then obtain s' where b: "loop_body w td (st, u # us, pc) = Some s'"
    and r: "crawl_loop fuel w td s' = Finished st'"
    by (auto split: option.splits)
  from 3(1) [OF b r] obtain n pc' where n: "n \<le> fuel" "loop_head n w td s' = Some (st', [], pc')"
    by blast
  from b n(2) have "loop_head (Suc n) w td (st, u # us, pc) = Some (st', [], pc')"
    unfolding loop_head_front by simp
  with n(1) show ?case by (metis Suc_le_mono)
qed


lemma crawl_page_target_domain:
  "crawl_page w st url td pn qs = crawl_page w st url td' pn qs'"
  by (simp add: crawl_page_def)

lemma loop_body_target_domain: "loop_body w td s = loop_body w td' s"
  by (simp add: loop_body_def crawl_page_def)

lemma loop_head_target_domain: "loop_head n w td s = loop_head n w td' s"
  by (induction n) (simp_all add: loop_body_target_domain [of w td _ td'] split: option.splits)

lemma crawl_loop_target_domain: "crawl_loop fuel w td s = crawl_loop fuel w td' s"
proof (induction fuel w td s rule: crawl_loop.induct)
  case (3 fuel w td st u us pc)
  then show ?case
    by (simp add: loop_body_target_domain [of w td _ td'] split: option.splits)
qed simp_all

lemma loop_head_Finished:
  "loop_head n w td s = Some (st', [], pc') \<Longrightarrow> n \<le> fuel \<Longrightarrow>
     crawl_loop fuel w td s = Finished st'"
proof (induction n arbitrary: s fuel)
  case 0
  then show ?case by simp
next
  case (Suc n)
  obtain st urls pc where s: "s = (st, urls, pc)" by (cases s)
  from Suc.prems(1) have "loop_head (Suc n) w td (st, urls, pc) = Some (st', [], pc')"
    unfolding s .
  then obtain s1 where ne: "urls \<noteq> []"
    and b: "loop_body w td (st, urls, pc) = Some s1"
    and h: "loop_head n w td s1 = Some (st', [], pc')"
    unfolding loop_head_front by (auto split: if_splits option.splits)
  from Suc.prems(2) obtain fuel' where f: "fuel = Suc fuel'" "n \<le> fuel'"
    by (cases fuel) auto
  from ne obtain u us where u: "urls = u # us" by (cases urls) auto
  from Suc.IH [OF h f(2)] b show ?case by (simp add: s f(1) u)
qed

lemma crawl_website_loop:
  assumes "normalize_url w start_url = Some start" and "is_valid_url w start"
  shows "crawl_website fuel w st start_url = crawl_loop fuel w td (st, [start], 0)"
proof -
  from assms(2) obtain d where "get_domain w start = Some d"
    by (auto simp: is_valid_url_def get_domain_def split: option.splits)
  with assms show ?thesis
    by (simp add: crawl_website_def crawl_loop_target_domain [of fuel w d _ td])
qed

lemma loop_body_no_content:
  assumes "urls \<noteq> []" and "i = set_pop w urls mod length urls"
    and "urls ! i \<notin> visited_urls st" and "urlparse w (urls ! i) \<noteq> None"
    and "fetch_page w (urls ! i) = None \<or> fetch_page w (urls ! i) = Some []"
  shows "loop_body w td (st, urls, pc) =
     Some (st\<lparr>progress := progress st @ [(Suc pc, urls ! i)],
              visited_urls := insert (urls ! i) (visited_urls st)\<rparr>,
           take i urls @ drop (Suc i) urls, Suc pc)"
  using crawl_page_no_content [OF assms(3,4,5), of td "Suc pc" "length (take i urls @ drop (Suc i) urls)"]
  by (simp add: loop_body_def Let_def assms(2) set_update_def)

lemma loop_body_content:
  assumes "urls \<noteq> []" and "i = set_pop w urls mod length urls"
    and "urls ! i \<notin> visited_urls st" and "urlparse w (urls ! i) \<noteq> None"
    and "fetch_page w (urls ! i) = Some html" and "html \<noteq> []"
  shows "loop_body w td (st, urls, pc) =
     Some (st\<lparr>progress := progress st @ [(Suc pc, urls ! i)],
              visited_urls := insert (urls ! i) (visited_urls st),
              word_counts := counter_update (word_counts st)
                (Counter (extract_words (ignore_words st) (extract_text_from_html w html))),
              page_word_counts := (page_word_counts st)
                (urls ! i \<mapsto> Counter (extract_words (ignore_words st) (extract_text_from_html w html))),
              total_words_processed := total_words_processed st
                + length (extract_words (ignore_words st) (extract_text_from_html w html))\<rparr>,
           set_update (take i urls @ drop (Suc i) urls)
             (filter (\<lambda>l. is_same_domain w l (urls ! i) = Some True
                        \<and> l \<notin> insert (urls ! i) (visited_urls st))
                (extract_links w html (urls ! i))),
           Suc pc)"
proof -
  have "filter (\<lambda>link. link \<noteq> urls ! i \<and> link \<notin> visited_urls st)
          (filter (\<lambda>l. is_same_domain w l (urls ! i) = Some True \<and> l \<noteq> urls ! i \<and> l \<notin> visited_urls st)
             (extract_links w html (urls ! i)))
        = filter (\<lambda>l. is_same_domain w l (urls ! i) = Some True \<and> l \<noteq> urls ! i \<and> l \<notin> visited_urls st)
             (extract_links w html (urls ! i))"
    by (induction "extract_links w html (urls ! i)") auto
  with crawl_page_content [OF assms(3,4,5,6), of td "Suc pc" "length (take i urls @ drop (Suc i) urls)"]
  show ?thesis
    by (simp add: loop_body_def Let_def assms(2))
qed

lemma offer_known:
  "set ls \<subseteq> visited \<union> set pending \<Longrightarrow>
     set_update pending (filter (\<lambda>link. link \<notin> visited) ls) = pending"
  by (rule set_update_known) auto

text \<open>Two pages that link to each other.\<close>

lemma crawl_cycle:
  assumes ab: "a \<noteq> b" and va: "is_valid_url w a" and vb: "is_valid_url w b"
    and same: "is_same_domain w b a = Some True"
    and fa: "fetch_page w a = Some html_a" "html_a \<noteq> []" "extract_links w html_a a = [b]"
    and fb: "fetch_page w b = Some html_b" "html_b \<noteq> []" "extract_links w html_b b = [a]"
  shows "\<exists>st. loop_head 2 w td (WebSpider_init ignore q, [a], 0) = Some (st, [], 2)
     \<and> progress st = [(1, a), (2, b)] \<and> visited_urls st = {a, b}"
proof -
  let ?s0 = "(WebSpider_init ignore q, [a], 0 :: nat)"
  have pa: "urlparse w a \<noteq> None" and pb: "urlparse w b \<noteq> None"
    using va vb is_valid_url_parses by auto
  have sab: "is_same_domain w a b = Some True" using same by (rule is_same_domain_sym)
  have "loop_body w td ?s0 = Some
     ((WebSpider_init ignore q)\<lparr>progress := progress (WebSpider_init ignore q) @ [(Suc 0, [a] ! 0)],
              visited_urls := insert ([a] ! 0) (visited_urls (WebSpider_init ignore q)),
              word_counts := counter_update (word_counts (WebSpider_init ignore q))
                (Counter (extract_words (ignore_words (WebSpider_init ignore q)) (extract_text_from_html w html_a))),
              page_word_counts := (page_word_counts (WebSpider_init ignore q))
                ([a] ! 0 \<mapsto> Counter (extract_words (ignore_words (WebSpider_init ignore q)) (extract_text_from_html w html_a))),
              total_words_processed := total_words_processed (WebSpider_init ignore q)
                + length (extract_words (ignore_words (WebSpider_init ignore q)) (extract_text_from_html w html_a))\<rparr>,
           set_update (take 0 [a] @ drop (Suc 0) [a])
             (filter (\<lambda>l. is_same_domain w l ([a] ! 0) = Some True
                        \<and> l \<notin> insert ([a] ! 0) (visited_urls (WebSpider_init ignore q)))
                (extract_links w html_a ([a] ! 0))),
           Suc 0)"
    by (rule loop_body_content [where html = html_a])
       (simp_all add: pa fa WebSpider_init_def)
  then obtain st1 where b1: "loop_body w td ?s0 = Some (st1, [b], 1)"
    and p1: "progress st1 = [(1, a)]" and v1: "visited_urls st1 = {a}"
    using ab fa same by (simp add: WebSpider_init_def set_update_def set_add_def)
  have "loop_body w td (st1, [b], 1) = Some
     (st1\<lparr>progress := progress st1 @ [(Suc 1, [b] ! 0)],
              visited_urls := insert ([b] ! 0) (visited_urls st1),
              word_counts := counter_update (word_counts st1)
                (Counter (extract_words (ignore_words st1) (extract_text_from_html w html_b))),
              page_word_counts := (page_word_counts st1)
                ([b] ! 0 \<mapsto> Counter (extract_words (ignore_words st1) (extract_text_from_html w html_b))),
              total_words_processed := total_words_processed st1
                + length (extract_words (ignore_words st1) (extract_text_from_html w html_b))\<rparr>,
           set_update (take 0 [b] @ drop (Suc 0) [b])
             (filter (\<lambda>l. is_same_domain w l ([b] ! 0) = Some True
                        \<and> l \<notin> insert ([b] ! 0) (visited_urls st1))
                (extract_links w html_b ([b] ! 0))),
           Suc 1)"
    by (rule loop_body_content [where html = html_b])
       (simp_all add: pb fb v1 ab [symmetric])
  then obtain st2 where b2: "loop_body w td (st1, [b], 1) = Some (st2, [], 2)"
    and p2: "progress st2 = [(1, a), (2, b)]" and v2: "visited_urls st2 = {a, b}"
    using ab fb sab p1 v1 by (auto simp: set_update_def numeral_2_eq_2)
  from b1 b2 have "loop_head 2 w td ?s0 = Some (st2, [], 2)"
    by (simp add: numeral_2_eq_2)
  with p2 v2 show ?thesis by blast
qed


lemma cycle_site_urls:
  shows "is_valid_url cycle_site ''http://e.com/a''"
    and "is_valid_url cycle_site ''http://www.e.com/b''"
    and "is_valid_url cycle_site ''http://e.com/c''"
    and "is_same_domain cycle_site ''http://www.e.com/b'' ''http://e.com/a'' = Some True"
    and "normalize_url cycle_site ''http://E.com/a#top'' = Some ''http://e.com/a''"
    and "normalize_url cycle_site ''http://e.com/c'' = Some ''http://e.com/c''"
  by (simp_all add: cycle_site_def demo_lib_def url_defs lower_def char_class_defs)

lemma cycle_site_pages:
  shows "fetch_page cycle_site ''http://e.com/a'' = Some ''<p>to b</p>''"
    and "fetch_page cycle_site ''http://www.e.com/b'' = Some ''<p>to a</p>''"
    and "fetch_page cycle_site ''http://e.com/c'' = Some ''<p>alone</p>''"
  by (simp_all add: cycle_site_def demo_lib_def fetch_page_def lower_def char_class_defs)

lemma cycle_site_links:
  shows "extract_links cycle_site ''<p>to b</p>'' ''http://e.com/a'' = [''http://www.e.com/b'']"
    and "extract_links cycle_site ''<p>to a</p>'' ''http://www.e.com/b'' = [''http://e.com/a'']"
    and "extract_links cycle_site ''<p>alone</p>'' ''http://e.com/c'' = []"
  by (simp_all add: cycle_site_def demo_lib_def extract_links_def set_add_def url_defs lower_def char_class_defs)

section \<open>Termination\<close>




lemma cycle_site_crawl:
  "\<exists>st. loop_head 2 cycle_site ''e.com'' (WebSpider_init {} True, [''http://e.com/a''], 0) = Some (st, [], 2)
     \<and> progress st = [(1, ''http://e.com/a''), (2, ''http://www.e.com/b'')]
     \<and> visited_urls st = {''http://e.com/a'', ''http://www.e.com/b''}"
  by (rule crawl_cycle [where html_a = "''<p>to b</p>''" and html_b = "''<p>to a</p>''"])
     (simp_all add: cycle_site_urls cycle_site_pages cycle_site_links)

lemma crawl_first_page:
  assumes ab: "a \<noteq> b" and va: "is_valid_url w a"
    and same: "is_same_domain w b a = Some True"
    and fa: "fetch_page w a = Some html_a" "html_a \<noteq> []" "extract_links w html_a a = [b]"
  shows "\<exists>st. loop_head 1 w td (WebSpider_init ignore q, [a], 0) = Some (st, [b], 1)
     \<and> progress st = [(1, a)] \<and> visited_urls st = {a}"
proof -
  let ?s0 = "(WebSpider_init ignore q, [a], 0 :: nat)"
  have pa: "urlparse w a \<noteq> None" using va is_valid_url_parses by auto
  have "loop_body w td ?s0 = Some
     ((WebSpider_init ignore q)\<lparr>progress := progress (WebSpider_init ignore q) @ [(Suc 0, [a] ! 0)],
              visited_urls := insert ([a] ! 0) (visited_urls (WebSpider_init ignore q)),
              word_counts := counter_update (word_counts (WebSpider_init ignore q))
                (Counter (extract_words (ignore_words (WebSpider_init ignore q)) (extract_text_from_html w html_a))),
              page_word_counts := (page_word_counts (WebSpider_init ignore q))
                ([a] ! 0 \<mapsto> Counter (extract_words (ignore_words (WebSpider_init ignore q)) (extract_text_from_html w html_a))),
              total_words_processed := total_words_processed (WebSpider_init ignore q)
                + length (extract_words (ignore_words (WebSpider_init ignore q)) (extract_text_from_html w html_a))\<rparr>,
           set_update (take 0 [a] @ drop (Suc 0) [a])
             (filter (\<lambda>l. is_same_domain w l ([a] ! 0) = Some True
                        \<and> l \<notin> insert ([a] ! 0) (visited_urls (WebSpider_init ignore q)))
                (extract_links w html_a ([a] ! 0))),
           Suc 0)"
    by (rule loop_body_content [where html = html_a])
       (simp_all add: pa fa WebSpider_init_def)
  then obtain st1 where b1: "loop_body w td ?s0 = Some (st1, [b], 1)"
    and p1: "progress st1 = [(1, a)]" and v1: "visited_urls st1 = {a}"
    using ab fa same by (simp add: WebSpider_init_def set_update_def set_add_def)
  from b1 have "loop_head 1 w td ?s0 = Some (st1, [b], 1)" by simp
  with p1 v1 show ?thesis by blast
qed

lemma cycle_site_first_page:
  "\<exists>st. loop_head 1 cycle_site ''e.com'' (WebSpider_init {} True, [''http://e.com/a''], 0)
       = Some (st, [''http://www.e.com/b''], 1)
     \<and> progress st = [(1, ''http://e.com/a'')] \<and> visited_urls st = {''http://e.com/a''}"
  by (rule crawl_first_page [where html_a = "''<p>to b</p>''"])
     (simp_all add: cycle_site_urls cycle_site_pages cycle_site_links)

section \<open>The frontier\<close>

text \<open>
  C1. At every test of the loop condition of a crawl, the pages processed so far are
  pairwise different, they are numbered 1 to \<open>page_count\<close> (every URL taken from
  \<open>urls_to_visit\<close> was processed), they are the visited URLs, and \<open>urls_to_visit\<close> holds no
  URL twice. Adding links that are all visited or pending already changes neither
  \<open>urls_to_visit\<close> nor the visited set.
\<close>

theorem frontier_never_yields_twice:
  assumes "is_valid_url w start"
    and "loop_head n w td (WebSpider_init ignore q, [start], 0) = Some (st, urls_to_visit, page_count)"
  shows "distinct (map snd (progress st))
     \<and> map fst (progress st) = [1 ..< Suc page_count]
     \<and> set (map snd (progress st)) = visited_urls st
     \<and> distinct urls_to_visit
     \<and> (\<forall>links. set links \<subseteq> visited_urls st \<union> set urls_to_visit \<longrightarrow>
           set_update urls_to_visit (filter (\<lambda>link. link \<notin> visited_urls st) links) = urls_to_visit)"
proof -
  from loop_head_inv [OF crawl_inv_init [OF assms(1)] assms(2)]
  have "crawl_inv w start (st, urls_to_visit, page_count)" .
  then show ?thesis using offer_known by (simp add: crawl_inv_def)
qed

theorem frontier_never_yields_twice_witness:
  "\<exists>st. loop_head 1 cycle_site ''e.com'' (WebSpider_init {} True, [''http://e.com/a''], 0)
       = Some (st, [''http://www.e.com/b''], 1)
     \<and> progress st = [(1, ''http://e.com/a'')]
     \<and> distinct (map snd (progress st))
     \<and> set (map snd (progress st)) = visited_urls st
     \<and> set_update [''http://www.e.com/b'']
          (filter (\<lambda>link. link \<notin> visited_urls st)
             [''http://e.com/a'', ''http://www.e.com/b'', ''http://e.com/a''])
        = [''http://www.e.com/b'']"
proof -
  from cycle_site_first_page obtain st where
    h: "loop_head 1 cycle_site ''e.com'' (WebSpider_init {} True, [''http://e.com/a''], 0)
       = Some (st, [''http://www.e.com/b''], 1)"
    and p: "progress st = [(1, ''http://e.com/a'')]"
    by blast
  from frontier_never_yields_twice [OF cycle_site_urls(1) h]
  have d: "distinct (map snd (progress st))" and s: "set (map snd (progress st)) = visited_urls st"
    and o: "\<forall>links. set links \<subseteq> visited_urls st \<union> set [''http://www.e.com/b''] \<longrightarrow>
           set_update [''http://www.e.com/b''] (filter (\<lambda>link. link \<notin> visited_urls st) links)
             = [''http://www.e.com/b'']"
    by blast+
  from s p have "set [''http://e.com/a'', ''http://www.e.com/b'', ''http://e.com/a'']
      \<subseteq> visited_urls st \<union> set [''http://www.e.com/b'']" by auto
  with o have "set_update [''http://www.e.com/b'']
          (filter (\<lambda>link. link \<notin> visited_urls st)
             [''http://e.com/a'', ''http://www.e.com/b'', ''http://e.com/a''])
        = [''http://www.e.com/b'']"
    by blast
  with h p d s show ?thesis by blast
qed

section \<open>The domain of the crawl\<close>

text \<open>
  C3. At every test of the loop condition of a crawl that started at \<open>start\<close>, every URL
  in \<open>urls_to_visit\<close>, so every link kept so far, and every page processed is in the same
  domain as \<open>start\<close>. \<open>crawl_page\<close> compares a link with the page it is found on, and that
  page is in the domain of \<open>start\<close>.
\<close>

theorem crawl_stays_in_seed_domain:
  assumes "is_valid_url w start"
    and "loop_head n w td (WebSpider_init ignore q, [start], 0) = Some (st, urls_to_visit, page_count)"
  shows "(\<forall>u \<in> set urls_to_visit. is_same_domain w u start = Some True)
     \<and> (\<forall>u \<in> set (map snd (progress st)). is_same_domain w u start = Some True)
     \<and> (\<forall>u \<in> visited_urls st. is_same_domain w u start = Some True)"
proof -
  from loop_head_inv [OF crawl_inv_init [OF assms(1)] assms(2)]
  have "crawl_inv w start (st, urls_to_visit, page_count)" .
  then show ?thesis by (simp add: crawl_inv_def)
qed

theorem crawl_stays_in_seed_domain_witness:
  "\<exists>st. loop_head 1 cycle_site ''e.com'' (WebSpider_init {} True, [''http://e.com/a''], 0)
       = Some (st, [''http://www.e.com/b''], 1)
     \<and> map snd (progress st) = [''http://e.com/a'']
     \<and> (\<forall>u \<in> set [''http://www.e.com/b'']. is_same_domain cycle_site u ''http://e.com/a'' = Some True)
     \<and> (\<forall>u \<in> set (map snd (progress st)). is_same_domain cycle_site u ''http://e.com/a'' = Some True)"
proof -
  from cycle_site_first_page obtain st where
    h: "loop_head 1 cycle_site ''e.com'' (WebSpider_init {} True, [''http://e.com/a''], 0)
       = Some (st, [''http://www.e.com/b''], 1)"
    and p: "progress st = [(1, ''http://e.com/a'')]"
    by blast
  from crawl_stays_in_seed_domain [OF cycle_site_urls(1) h]
  have "\<forall>u \<in> set [''http://www.e.com/b'']. is_same_domain cycle_site u ''http://e.com/a'' = Some True"
    and "\<forall>u \<in> set (map snd (progress st)). is_same_domain cycle_site u ''http://e.com/a'' = Some True"
    by blast+
  with h p show ?thesis by simp
qed

section \<open>Visited and pending\<close>

text \<open>
  C4. At every test of the loop condition of a crawl, no visited URL is in
  \<open>urls_to_visit\<close>, and every URL that has an entry in \<open>page_word_counts\<close> is visited; the
  latter holds of the state that \<open>crawl_website\<close> returns as well.
\<close>

theorem visited_pending_disjoint:
  "(is_valid_url w start
      \<and> loop_head n w td (WebSpider_init ignore q, [start], 0) = Some (st, urls_to_visit, page_count)
    \<longrightarrow> visited_urls st \<inter> set urls_to_visit = {}
        \<and> dom (page_word_counts st) \<subseteq> visited_urls st)
   \<and> (crawl_website fuel w (WebSpider_init ignore q) seed = Finished st'
    \<longrightarrow> dom (page_word_counts st') \<subseteq> visited_urls st')"
proof (intro conjI impI)
  assume a: "is_valid_url w start
      \<and> loop_head n w td (WebSpider_init ignore q, [start], 0) = Some (st, urls_to_visit, page_count)"
  then have "crawl_inv w start (st, urls_to_visit, page_count)"
    using loop_head_inv [OF crawl_inv_init] by blast
  then show "visited_urls st \<inter> set urls_to_visit = {}" by (auto simp: crawl_inv_def)
  from \<open>crawl_inv w start (st, urls_to_visit, page_count)\<close>
  show "dom (page_word_counts st) \<subseteq> visited_urls st" by (simp add: crawl_inv_def)
next
  assume f: "crawl_website fuel w (WebSpider_init ignore q) seed = Finished st'"
  show "dom (page_word_counts st') \<subseteq> visited_urls st'"
  proof (cases "\<exists>s. normalize_url w seed = Some s \<and> is_valid_url w s")
    case True
    then obtain s where s: "normalize_url w seed = Some s" "is_valid_url w s" by blast
    from f crawl_website_loop [OF s, of fuel _ "[]"]
    have "crawl_loop fuel w [] (WebSpider_init ignore q, [s], 0) = Finished st'" by simp
    from crawl_loop_Finished [OF this] obtain k pc where
      "loop_head k w [] (WebSpider_init ignore q, [s], 0) = Some (st', [], pc)" by blast
    from loop_head_inv [OF crawl_inv_init [OF s(2)] this] show ?thesis
      by (simp add: crawl_inv_def)
  next
    case False
    with f have "st' = WebSpider_init ignore q"
      by (auto simp: crawl_website_def split: option.splits if_splits)
    then show ?thesis by (simp add: WebSpider_init_def)
  qed
qed

theorem visited_pending_disjoint_witness:
  "\<exists>st st'. loop_head 1 cycle_site ''e.com'' (WebSpider_init {} True, [''http://e.com/a''], 0)
       = Some (st, [''http://www.e.com/b''], 1)
     \<and> visited_urls st = {''http://e.com/a''}
     \<and> visited_urls st \<inter> set [''http://www.e.com/b''] = {}
     \<and> dom (page_word_counts st) \<subseteq> visited_urls st
     \<and> crawl_website 2 cycle_site (WebSpider_init {} True) ''http://E.com/a#top'' = Finished st'
     \<and> dom (page_word_counts st') \<subseteq> visited_urls st'"
proof -
  from cycle_site_first_page obtain st where
    h: "loop_head 1 cycle_site ''e.com'' (WebSpider_init {} True, [''http://e.com/a''], 0)
       = Some (st, [''http://www.e.com/b''], 1)"
    and v: "visited_urls st = {''http://e.com/a''}" by blast
  from cycle_site_crawl obtain st' where
    "loop_head 2 cycle_site ''e.com'' (WebSpider_init {} True, [''http://e.com/a''], 0) = Some (st', [], 2)"
    by blast
  from loop_head_Finished [OF this, of 2]
  have "crawl_loop 2 cycle_site ''e.com'' (WebSpider_init {} True, [''http://e.com/a''], 0) = Finished st'"
    by simp
  then have f: "crawl_website 2 cycle_site (WebSpider_init {} True) ''http://E.com/a#top'' = Finished st'"
    by (simp add: crawl_website_loop [OF cycle_site_urls(5) cycle_site_urls(1), of _ _ "''e.com''"])
  from visited_pending_disjoint [of cycle_site "''http://e.com/a''" 1 "''e.com''" "{}" True st
      "[''http://www.e.com/b'']" 1 2 "''http://E.com/a#top''" st'] cycle_site_urls(1) h f
  have "visited_urls st \<inter> set [''http://www.e.com/b''] = {}"
    and "dom (page_word_counts st) \<subseteq> visited_urls st"
    and "dom (page_word_counts st') \<subseteq> visited_urls st'"
    by blast+
  with h v f show ?thesis by blast
qed

end
